theory Spec2Isabelle
  imports Main "HOL-Library.Multiset"
begin

section \<open>Data model of the numbering controller\<close>

text \<open>
  The plugin \<^verbatim>\<open>AutoNumbering\<close> (file \<^verbatim>\<open>auto_numbering.py\<close>) keeps a layer reference,
  an activation flag and a list of undo records, and reads and writes one integer
  attribute (\<^verbatim>\<open>field_name = "number"\<close>) of the layer's features. Feature identifiers and
  attribute values are Python integers, hence \<open>int\<close>; an attribute that is \<^verbatim>\<open>None\<close> is
  \<open>None\<close>.
\<close>

type_synonym fid = int

record feature =
  fid :: fid
  number :: "int option"

type_synonym layer = "feature list"

text \<open>The dictionary appended to \<^verbatim>\<open>self.history\<close> in \<^verbatim>\<open>number_selected\<close>.\<close>

record undo_record =
  feature_id :: fid
  old_value :: "int option"
  new_value :: int

text \<open>The dictionary appended to \<^verbatim>\<open>numbered_features\<close> in \<^verbatim>\<open>restart_numbering\<close>.\<close>

record numbered_feature =
  item_feature :: feature
  old_number :: int

text \<open>
  The two message-bar notifications: \<^verbatim>\<open>"Number {next_number} assigned"\<close> (title
  \<^verbatim>\<open>Success\<close>) and \<^verbatim>\<open>"Removed number {new_value}"\<close> (title \<^verbatim>\<open>Undo\<close>).
\<close>

datatype notification = Success int | Undo int

text \<open>The answer to the \<^verbatim>\<open>QMessageBox.question\<close> prompt of \<^verbatim>\<open>reset_numbers\<close>.\<close>

datatype reply = Yes | No

text \<open>
  Calling a method on \<^verbatim>\<open>self.layer\<close> while it is \<^verbatim>\<open>None\<close> raises \<^verbatim>\<open>AttributeError\<close>.
\<close>

datatype error = AttributeError

text \<open>
  The fields of \<^verbatim>\<open>AutoNumbering\<close> that the numbering operations read or write:
  \<^verbatim>\<open>self.layer\<close> (\<^verbatim>\<open>None\<close> until a layer is targeted), \<^verbatim>\<open>self.history\<close>, \<^verbatim>\<open>self.active\<close>,
  the enabled flag of \<^verbatim>\<open>self.undo_btn\<close>, and the notifications pushed to the message bar
  so far.
\<close>

record controller =
  layer :: "layer option"
  history :: "undo_record list"
  active :: bool
  undo_btn :: bool
  messages :: "notification list"

section \<open>The host's layer interface\<close>

text \<open>
  Modelled from the spec: the host application's layer object (\<^verbatim>\<open>QgsVectorLayer\<close>) is
  not part of the repository. The spec's contract for it is: enumerate all features,
  query the current selection, read a named field per feature, write a named field per
  feature id inside a begin/commit edit transaction, and report whether a write
  succeeded. A layer is the list of its features in enumeration order; the selection
  is the list of selected feature ids; \<open>ok\<close> is the host's report for the writes of one
  edit transaction, and a write that the host does not accept leaves the layer as it
  was. \<^verbatim>\<open>startEditing\<close> and \<^verbatim>\<open>commitChanges\<close> have no further effect on the field values.
\<close>

definition getFeatures :: "layer \<Rightarrow> feature list" where
  "getFeatures l = l"

text \<open>
  Modelled from the spec: the current selection, as the features of the layer whose id is
  selected, in enumeration order.
\<close>

definition selectedFeatures :: "layer \<Rightarrow> fid list \<Rightarrow> feature list" where
  "selectedFeatures l sel = filter (\<lambda>f. fid f \<in> set sel) l"

text \<open>
  Modelled from the spec: writing the value \<open>v\<close> into the number field of the feature with
  id \<open>i\<close>. The first component of the result is the success report.
\<close>

definition changeAttributeValue :: "bool \<Rightarrow> layer \<Rightarrow> fid \<Rightarrow> int option \<Rightarrow> bool \<times> layer" where
  "changeAttributeValue ok l i v =
     (if ok then (True, map (\<lambda>f. if fid f = i then f\<lparr>number := v\<rparr> else f) l)
      else (False, l))"

text \<open>
  Modelled from the spec: reading the number field of the feature with a given id (the
  first one enumerated; \<open>None\<close> also when the layer has no such feature).
\<close>

definition value_of :: "layer \<Rightarrow> fid \<Rightarrow> int option" where
  "value_of l i = (case filter (\<lambda>f. fid f = i) l of [] \<Rightarrow> None | f # _ \<Rightarrow> number f)"

section \<open>The operations of \<^verbatim>\<open>AutoNumbering\<close>\<close>

text \<open>
  The test \<^verbatim>\<open>feature[self.field_name] is not None and feature[self.field_name] > 0\<close>,
  used by \<^verbatim>\<open>number_selected\<close> and \<^verbatim>\<open>restart_numbering\<close>.
\<close>

definition numbered :: "feature \<Rightarrow> bool" where
  "numbered f = (case number f of None \<Rightarrow> False | Some v \<Rightarrow> v > 0)"

text \<open>
  The scan of \<^verbatim>\<open>number_selected\<close>:
  \<^verbatim>\<open>
  max_number = 0
  for feat in self.layer.getFeatures():
      if feat[self.field_name] is not None and feat[self.field_name] > max_number:
          max_number = feat[self.field_name]
  \<close>
  with the running maximum as the first argument.
\<close>

fun max_number :: "int \<Rightarrow> feature list \<Rightarrow> int" where
  "max_number m [] = m"
| "max_number m (feat # feats) =
     max_number (case number feat of
                   None \<Rightarrow> m
                 | Some v \<Rightarrow> if v > m then v else m) feats"

definition next_number :: "layer \<Rightarrow> int" where
  "next_number l = max_number 0 (getFeatures l) + 1"

text \<open>
  \<^verbatim>\<open>number_selected\<close>, the handler of the selection-changed signal. \<open>sel\<close> is the
  host's current selection and \<open>ok\<close> the host's report for the attribute write.
\<close>

definition number_selected :: "controller \<Rightarrow> fid list \<Rightarrow> bool \<Rightarrow> error + controller" where
  "number_selected s sel ok =
     (if \<not> active s then Inr s
      else case layer s of
        None \<Rightarrow> Inl AttributeError
      | Some l \<Rightarrow>
          (case selectedFeatures l sel of
             [] \<Rightarrow> Inr s
           | feat # others \<Rightarrow>
               if length (feat # others) > 1 then Inr s
               else if numbered feat then Inr s
               else
                 let nxt = next_number l;
                     s1 = s\<lparr>history := history s @
                            [\<lparr>feature_id = fid feat, old_value = number feat,
                              new_value = nxt\<rparr>]\<rparr>;
                     (success, l') = changeAttributeValue ok l (fid feat) (Some nxt);
                     s2 = s1\<lparr>layer := Some l'\<rparr>
                 in Inr (if success
                         then s2\<lparr>messages := messages s2 @ [Success nxt], undo_btn := True\<rparr>
                         else s2)))"

text \<open>
  \<^verbatim>\<open>undo_last\<close>: pops the last record, then writes its old value back. The pop comes
  before the first use of \<^verbatim>\<open>self.layer\<close>.
\<close>

definition undo_last :: "controller \<Rightarrow> bool \<Rightarrow> error + controller" where
  "undo_last s ok =
     (if history s = [] then Inr s
      else
        let last_action = last (history s);
            s1 = s\<lparr>history := butlast (history s)\<rparr>
        in case layer s1 of
             None \<Rightarrow> Inl AttributeError
           | Some l \<Rightarrow>
               let (success, l') =
                     changeAttributeValue ok l (feature_id last_action) (old_value last_action);
                   s2 = s1\<lparr>layer := Some l'\<rparr>;
                   s3 = (if success
                         then s2\<lparr>messages := messages s2 @ [Undo (new_value last_action)]\<rparr>
                         else s2)
               in Inr (if history s3 = [] then s3\<lparr>undo_btn := False\<rparr> else s3))"

text \<open>
  The loop of \<^verbatim>\<open>reset_numbers\<close> over \<^verbatim>\<open>self.layer.getFeatures()\<close>; the result of each
  write is dropped.
\<close>

fun reset_loop :: "bool \<Rightarrow> layer \<Rightarrow> feature list \<Rightarrow> layer" where
  "reset_loop ok l [] = l"
| "reset_loop ok l (feat # feats) =
     reset_loop ok (snd (changeAttributeValue ok l (fid feat) None)) feats"

definition reset_numbers :: "controller \<Rightarrow> reply \<Rightarrow> bool \<Rightarrow> controller" where
  "reset_numbers s answer ok =
     (case layer s of
        None \<Rightarrow> s
      | Some l \<Rightarrow>
          if answer = Yes
          then s\<lparr>layer := Some (reset_loop ok l (getFeatures l)),
                 history := [], undo_btn := False\<rparr>
          else s)"

text \<open>The first loop of \<^verbatim>\<open>restart_numbering\<close>: collect the numbered features.\<close>

fun collect_numbered :: "feature list \<Rightarrow> numbered_feature list" where
  "collect_numbered [] = []"
| "collect_numbered (feat # feats) =
     (if numbered feat
      then \<lparr>item_feature = feat, old_number = the (number feat)\<rparr> # collect_numbered feats
      else collect_numbered feats)"

text \<open>
  The second loop, \<^verbatim>\<open>for i, item in enumerate(numbered_features, 1)\<close>, with the counter
  \<open>i\<close> as an argument.
\<close>

fun renumber_loop :: "bool \<Rightarrow> layer \<Rightarrow> int \<Rightarrow> numbered_feature list \<Rightarrow> layer" where
  "renumber_loop ok l i [] = l"
| "renumber_loop ok l i (item # items) =
     renumber_loop ok (snd (changeAttributeValue ok l (fid (item_feature item)) (Some i)))
       (i + 1) items"

text \<open>
  \<^verbatim>\<open>restart_numbering\<close>. Python's \<^verbatim>\<open>list.sort\<close> is stable, as \<open>sort_key\<close> is.
\<close>

definition restart_numbering :: "controller \<Rightarrow> bool \<Rightarrow> controller" where
  "restart_numbering s ok =
     (case layer s of
        None \<Rightarrow> s
      | Some l \<Rightarrow>
          let numbered_features = sort_key old_number (collect_numbered (getFeatures l))
          in s\<lparr>layer := Some (renumber_loop ok l 1 numbered_features)\<rparr>)"

section \<open>Runs of several events, and the reference formula for the next number\<close>

text \<open>
  A sequence of selection-changed events, each with a single selected feature id and an
  accepted write. An exception ends the run.
\<close>

fun select_each :: "controller \<Rightarrow> fid list \<Rightarrow> error + controller" where
  "select_each s [] = Inr s"
| "select_each s (i # rest) =
     (case number_selected s [i] True of
        Inl e \<Rightarrow> Inl e
      | Inr s' \<Rightarrow> select_each s' rest)"

text \<open>A sequence of clicks on the undo button, one host report per click.\<close>

fun undo_each :: "controller \<Rightarrow> bool list \<Rightarrow> error + controller" where
  "undo_each s [] = Inr s"
| "undo_each s (ok # oks) =
     (case undo_last s ok of
        Inl e \<Rightarrow> Inl e
      | Inr s' \<Rightarrow> undo_each s' oks)"

text \<open>
  The order in which the second loop of \<^verbatim>\<open>restart_numbering\<close> visits the features:
  the \<^verbatim>\<open>'feature'\<close> entries of the sorted \<^verbatim>\<open>numbered_features\<close>.
\<close>

definition renumber_order :: "layer \<Rightarrow> feature list" where
  "renumber_order l = map item_feature (sort_key old_number (collect_numbered (getFeatures l)))"

text \<open>
  The specification's formula for the next number, word for word: one plus the maximum
  of the field values over all features, a missing value counting as 0, and the maximum
  of an empty collection being 0.
\<close>

definition field_or_zero :: "feature \<Rightarrow> int" where
  "field_or_zero f = (case number f of None \<Rightarrow> 0 | Some v \<Rightarrow> v)"

definition spec_next :: "layer \<Rightarrow> int" where
  "spec_next l = 1 + (if l = [] then 0 else Max (set (map field_or_zero l)))"

text \<open>
  The controller right after \<^verbatim>\<open>__init__\<close> and a successful \<^verbatim>\<open>start_numbering\<close> on the
  layer \<open>l\<close>: empty history, active, undo button disabled.
\<close>

definition started :: "layer \<Rightarrow> controller" where
  "started l = \<lparr>layer = Some l, history = [], active = True, undo_btn = False, messages = []\<rparr>"

text \<open>
  The specification's example layer: features A, B, C (ids 1, 2, 3) numbered 5, 2, 8 and
  an unnumbered feature D (id 4).
\<close>

definition spec_example :: layer where
  "spec_example =
     [\<lparr>fid = 1, number = Some 5\<rparr>, \<lparr>fid = 2, number = Some 2\<rparr>,
      \<lparr>fid = 3, number = Some 8\<rparr>, \<lparr>fid = 4, number = None\<rparr>]"

text \<open>A layer of two unnumbered features, used to replay two assignments.\<close>

definition two_unnumbered :: layer where
  "two_unnumbered = [\<lparr>fid = 1, number = None\<rparr>, \<lparr>fid = 2, number = None\<rparr>]"

text \<open>A layer of three unnumbered features, used to replay a run of selections.\<close>

definition three_unnumbered :: layer where
  "three_unnumbered =
     [\<lparr>fid = 10, number = None\<rparr>, \<lparr>fid = 20, number = None\<rparr>, \<lparr>fid = 30, number = None\<rparr>]"

text \<open>
  The position of the first occurrence of \<open>x\<close> in a list (its length when \<open>x\<close> does not
  occur), used to state which number a feature receives.
\<close>

fun position :: "'a \<Rightarrow> 'a list \<Rightarrow> nat" where
  "position x [] = 0"
| "position x (y # ys) = (if x = y then 0 else Suc (position x ys))"

text \<open>
  What a series of accepted writes makes of a feature when the feature ids \<open>ids\<close> are
  written in this order with the values 1, 2, 3, ...: the feature whose id is at position
  \<open>j\<close> (counted from 0) holds \<open>j + 1\<close>, a feature whose id is not among them is left as it
  is. Both the renumbering loop of \<^verbatim>\<open>restart_numbering\<close> and a run of selections on an
  unnumbered layer have this shape.
\<close>

definition renumbered :: "fid list \<Rightarrow> feature \<Rightarrow> feature" where
  "renumbered ids g =
     (if fid g \<in> set ids then g\<lparr>number := Some (1 + int (position (fid g) ids))\<rparr> else g)"

section \<open>Basic facts about the host writes and the scan\<close>

lemma max_number_ge: "m \<le> max_number m l"
proof (induction l arbitrary: m)
  case Nil
  show ?case by simp
next
  case (Cons a l)
  show ?case
  proof (cases "number a")
    case None
    then show ?thesis using Cons [of m] by simp
  next
    case (Some v)
    then show ?thesis using Cons [of m] Cons [of v] by auto
  qed
qed

lemma next_number_pos: "1 \<le> next_number l"
  using max_number_ge [of 0 "getFeatures l"] by (simp add: next_number_def)

lemma max_number_fold:
  "0 \<le> m \<Longrightarrow> max_number m l = fold max (map field_or_zero l) m"
proof (induction l arbitrary: m)
  case Nil
  show ?case by simp
next
  case (Cons a l)
  show ?case
  proof (cases "number a")
    case None
    then show ?thesis using Cons.IH [of m] Cons.prems
      by (simp add: field_or_zero_def max.absorb2)
  next
    case (Some v)
    show ?thesis
    proof (cases "v > m")
      case True
      then show ?thesis using Some Cons.IH [of v] Cons.prems
        by (simp add: field_or_zero_def max.absorb1)
    next
      case False
      then show ?thesis using Some Cons.IH [of m] Cons.prems
        by (simp add: field_or_zero_def max.absorb2)
    qed
  qed
qed

lemma max_number_Max: "max_number 0 l = Max (set (0 # map field_or_zero l))"
  unfolding Max.set_eq_fold by (rule max_number_fold) simp

lemma spec_next_agrees:
  assumes "g \<in> set l" "0 \<le> field_or_zero g"
  shows "next_number l = spec_next l"
proof -
  let ?A = "set (map field_or_zero l)"
  have ne: "?A \<noteq> {}" and fin: "finite ?A"
    using assms(1) by auto
  have "field_or_zero g \<le> Max ?A"
    using assms(1) by (intro Max_ge) auto
  then have "0 \<le> Max ?A"
    using assms(2) by simp
  then have "Max (insert 0 ?A) = Max ?A"
    using Max_insert [OF fin ne, of 0] by simp
  then have "Max (set (0 # map field_or_zero l)) = Max ?A"
    by simp
  moreover have "l \<noteq> []" using assms(1) by auto
  ultimately show ?thesis
    by (simp only: next_number_def getFeatures_def max_number_Max spec_next_def if_False add.commute)
qed

lemma value_of_write:
  "i \<in> fid ` set l \<Longrightarrow>
   value_of (map (\<lambda>f. if fid f = i then f\<lparr>number := v\<rparr> else f) l) i = v"
  by (induction l) (auto simp: value_of_def)

lemma selected_single_mem: "selectedFeatures l sel = [f] \<Longrightarrow> f \<in> set l"
  unfolding selectedFeatures_def
  by (metis filter_is_subset list.set_intros(1) subsetD)

text \<open>What a run of \<^verbatim>\<open>number_selected\<close> that passes all three guards returns.\<close>

lemma number_selected_assign:
  assumes "active s" "layer s = Some l" "selectedFeatures l sel = [f]" "\<not> numbered f"
  shows "number_selected s sel ok =
     Inr (if ok
          then s\<lparr>history := history s @
                   [\<lparr>feature_id = fid f, old_value = number f, new_value = next_number l\<rparr>],
                 layer := Some (map (\<lambda>g. if fid g = fid f
                                          then g\<lparr>number := Some (next_number l)\<rparr> else g) l),
                 messages := messages s @ [Success (next_number l)], undo_btn := True\<rparr>
          else s\<lparr>history := history s @
                   [\<lparr>feature_id = fid f, old_value = number f, new_value = next_number l\<rparr>],
                 layer := Some l\<rparr>)"
  using assms by (simp add: number_selected_def changeAttributeValue_def Let_def)

lemma number_selected_cases:
  assumes "number_selected s sel ok = Inr s'"
  shows "s' = s \<or> (\<exists>l f. active s \<and> layer s = Some l \<and>
           selectedFeatures l sel = [f] \<and> \<not> numbered f)"
  using assms
  by (auto simp: number_selected_def split: if_splits option.splits list.splits)

lemma undo_last_pop:
  assumes "history t = h @ [\<lparr>feature_id = i, old_value = v, new_value = n\<rparr>]"
    and "layer t = Some l"
  shows "undo_last t True =
     Inr (t\<lparr>history := h,
            layer := Some (map (\<lambda>g. if fid g = i then g\<lparr>number := v\<rparr> else g) l),
            messages := messages t @ [Undo n],
            undo_btn := (h \<noteq> [] \<and> undo_btn t)\<rparr>)"
  using assms by (simp add: undo_last_def changeAttributeValue_def Let_def)

lemma selected_single_unique:
  assumes "selectedFeatures l sel = [f]" "g \<in> set l" "fid g = fid f"
  shows "g = f"
proof -
  have "f \<in> set (filter (\<lambda>f. fid f \<in> set sel) l)"
    using assms(1) by (simp add: selectedFeatures_def)
  then have "fid f \<in> set sel" by simp
  then have "g \<in> set (filter (\<lambda>f. fid f \<in> set sel) l)"
    using assms(2,3) by simp
  then have "g \<in> set [f]"
    using assms(1) by (simp only: selectedFeatures_def)
  then show ?thesis by simp
qed

lemma write_then_restore:
  assumes "selectedFeatures l sel = [f]"
  shows "map (\<lambda>g. if fid g = fid f then g\<lparr>number := number f\<rparr> else g)
           (map (\<lambda>g. if fid g = fid f then g\<lparr>number := v\<rparr> else g) l) = l"
proof -
  have "(if fid (if fid g = fid f then g\<lparr>number := v\<rparr> else g) = fid f
         then (if fid g = fid f then g\<lparr>number := v\<rparr> else g)\<lparr>number := number f\<rparr>
         else (if fid g = fid f then g\<lparr>number := v\<rparr> else g)) = g"
    if "g \<in> set l" for g
    using selected_single_unique [OF assms that] by auto
  then show ?thesis by (simp add: map_idI comp_def)
qed

lemma value_of_selected:
  assumes "selectedFeatures l sel = [f]"
  shows "value_of l (fid f) = number f"
proof -
  have "f \<in> set (filter (\<lambda>g. fid g = fid f) l)"
    using selected_single_mem [OF assms] by simp
  then obtain a rest where eq: "filter (\<lambda>g. fid g = fid f) l = a # rest"
    by (cases "filter (\<lambda>g. fid g = fid f) l") auto
  have "a \<in> set (filter (\<lambda>g. fid g = fid f) l)"
    unfolding eq by simp
  then have "a = f"
    using selected_single_unique [OF assms, of a] by simp
  then show ?thesis
    by (simp add: value_of_def eq)
qed

text \<open>Undoing right after an assignment, from any controller that holds the assignment's
  layer and history.\<close>

lemma undo_after_assign:
  assumes "selectedFeatures l sel = [f]"
    and "layer t = Some (map (\<lambda>g. if fid g = fid f then g\<lparr>number := Some n\<rparr> else g) l)"
    and "history t = h @ [\<lparr>feature_id = fid f, old_value = number f, new_value = n\<rparr>]"
  shows "\<exists>t'. undo_last t True = Inr t' \<and> layer t' = Some l \<and> history t' = h"
  using undo_last_pop [OF assms(3) assms(2)] write_then_restore [OF assms(1), of "Some n"]
  by (simp del: map_map)

lemma reset_loop_True:
  "reset_loop True acc fs =
     map (\<lambda>f. if fid f \<in> fid ` set fs then f\<lparr>number := None\<rparr> else f) acc"
  by (induction fs arbitrary: acc) (auto simp: changeAttributeValue_def)

lemma reset_loop_False: "reset_loop False acc fs = acc"
  by (induction fs arbitrary: acc) (auto simp: changeAttributeValue_def)

lemma undo_each_empty: "history t = [] \<Longrightarrow> undo_each t oks = Inr t"
  by (induction oks) (auto simp: undo_last_def)

section \<open>Positions, distinct feature ids and the loops of \<^verbatim>\<open>restart_numbering\<close>\<close>

lemma position_nth: "distinct xs \<Longrightarrow> j < length xs \<Longrightarrow> position (xs ! j) xs = j"
proof (induction xs arbitrary: j)
  case Nil
  then show ?case by simp
next
  case (Cons a xs)
  show ?case
  proof (cases j)
    case 0
    then show ?thesis by simp
  next
    case (Suc j')
    then have "xs ! j' \<in> set xs" using Cons.prems by simp
    then have "xs ! j' \<noteq> a" using Cons.prems by auto
    then show ?thesis using Suc Cons by simp
  qed
qed

lemma position_less: "x \<in> set xs \<Longrightarrow> position x xs < length xs"
  by (induction xs) auto

lemma nth_position: "x \<in> set xs \<Longrightarrow> xs ! position x xs = x"
  by (induction xs) auto

lemma position_append_in: "x \<in> set xs \<Longrightarrow> position x (xs @ ys) = position x xs"
  by (induction xs) auto

lemma position_append_new: "x \<notin> set xs \<Longrightarrow> position x (xs @ [x]) = length xs"
  by (induction xs) auto

lemma map_position_self: "distinct xs \<Longrightarrow> map (\<lambda>x. position x xs) xs = [0..<length xs]"
  by (rule nth_equalityI) (simp_all add: position_nth)

text \<open>Feature ids identify the features of a layer whose ids are distinct.\<close>

lemma fid_inj:
  "distinct (map fid l) \<Longrightarrow> f \<in> set l \<Longrightarrow> g \<in> set l \<Longrightarrow> fid f = fid g \<Longrightarrow> f = g"
  by (meson distinct_map inj_onD)

lemma filter_fid_single:
  "distinct (map fid l) \<Longrightarrow> f \<in> set l \<Longrightarrow> filter (\<lambda>g. fid g = fid f) l = [f]"
  by (induction l) (auto simp: filter_empty_conv image_iff)

lemma value_of_distinct:
  "distinct (map fid l) \<Longrightarrow> f \<in> set l \<Longrightarrow> value_of l (fid f) = number f"
  by (simp add: value_of_def filter_fid_single)

lemma value_of_map:
  assumes "distinct (map fid l)" "f \<in> set l" "\<And>g. fid (G g) = fid g"
  shows "value_of (map G l) (fid f) = number (G f)"
proof -
  have "distinct (map fid (map G l))" using assms(1,3) by (simp add: comp_def)
  moreover have "G f \<in> set (map G l)" using assms(2) by simp
  ultimately have "value_of (map G l) (fid (G f)) = number (G f)"
    by (rule value_of_distinct)
  then show ?thesis by (simp add: assms(3))
qed

text \<open>The two loops of restart_numbering in closed form.\<close>

lemma collect_numbered_filter:
  "collect_numbered l =
     map (\<lambda>f. \<lparr>item_feature = f, old_number = the (number f)\<rparr>) (filter numbered l)"
  by (induction l) auto

lemma insort_key_map:
  "insort_key k (h x) (map h ys) = map h (insort_key (\<lambda>y. k (h y)) x ys)"
  by (induction ys) auto

lemma sort_key_map: "sort_key k (map h xs) = map h (sort_key (\<lambda>y. k (h y)) xs)"
  by (induction xs) (auto simp: insort_key_map)

lemma renumber_order_sort:
  "renumber_order l = sort_key (\<lambda>f. the (number f)) (filter numbered l)"
  by (simp add: renumber_order_def getFeatures_def collect_numbered_filter sort_key_map comp_def)

lemma renumber_loop_closed:
  assumes "distinct (map (\<lambda>item. fid (item_feature item)) items)"
  shows "renumber_loop True l i items =
     map (\<lambda>g. if fid g \<in> set (map (\<lambda>item. fid (item_feature item)) items)
              then g\<lparr>number := Some (i + int (position (fid g)
                                    (map (\<lambda>item. fid (item_feature item)) items)))\<rparr>
              else g) l"
  using assms
proof (induction items arbitrary: l i)
  case Nil
  show ?case by simp
next
  case (Cons it items)
  let ?ids = "map (\<lambda>item. fid (item_feature item)) items"
  let ?a = "fid (item_feature it)"
  have d: "distinct ?ids" and a: "?a \<notin> set ?ids"
    using Cons.prems by auto
  have "renumber_loop True l i (it # items) =
        renumber_loop True (map (\<lambda>f. if fid f = ?a then f\<lparr>number := Some i\<rparr> else f) l) (i + 1) items"
    by (simp add: changeAttributeValue_def)
  also have "\<dots> = map (\<lambda>g. if fid g \<in> set ?ids
              then g\<lparr>number := Some (i + 1 + int (position (fid g) ?ids))\<rparr> else g)
             (map (\<lambda>f. if fid f = ?a then f\<lparr>number := Some i\<rparr> else f) l)"
    by (rule Cons.IH [OF d])
  also have "\<dots> = map (\<lambda>g. if fid g \<in> set (?a # ?ids)
              then g\<lparr>number := Some (i + int (position (fid g) (?a # ?ids)))\<rparr> else g) l"
    using a by (auto simp: comp_def)
  finally show ?case by simp
qed


lemma fid_renumbered [simp]: "fid (renumbered ids g) = fid g"
  by (simp add: renumbered_def)

lemma renumber_order_set: "set (renumber_order l) = {f \<in> set l. numbered f}"
  by (auto simp: renumber_order_sort)

lemma renumber_order_distinct:
  assumes "distinct (map fid l)"
  shows "distinct (map fid (renumber_order l))"
proof -
  have "mset (map fid (renumber_order l)) = mset (map fid (filter numbered l))"
    by (simp add: renumber_order_sort)
  moreover have "distinct (map fid (filter numbered l))"
    using assms by (rule distinct_map_filter)
  ultimately show ?thesis
    using mset_eq_imp_distinct_iff by blast
qed

lemma restart_closed:
  assumes "layer s = Some l" "distinct (map fid l)"
  shows "restart_numbering s True =
           s\<lparr>layer := Some (map (renumbered (map fid (renumber_order l))) l)\<rparr>"
proof -
  let ?items = "sort_key old_number (collect_numbered (getFeatures l))"
  have ids: "map (\<lambda>item. fid (item_feature item)) ?items = map fid (renumber_order l)"
    by (simp add: renumber_order_def comp_def)
  have "distinct (map (\<lambda>item. fid (item_feature item)) ?items)"
    unfolding ids by (rule renumber_order_distinct [OF assms(2)])
  from renumber_loop_closed [OF this, of l 1]
  have "renumber_loop True l 1 ?items = map (renumbered (map fid (renumber_order l))) l"
    unfolding ids renumbered_def by simp
  then show ?thesis
    using assms(1) by (simp add: restart_numbering_def)
qed

lemma unnumbered_not_visited:
  assumes "distinct (map fid l)" "g \<in> set l" "\<not> numbered g"
  shows "fid g \<notin> set (map fid (renumber_order l))"
proof
  assume "fid g \<in> set (map fid (renumber_order l))"
  then obtain f where f: "f \<in> set (renumber_order l)" "fid f = fid g" by auto
  then have "f \<in> set l" "numbered f" by (simp_all add: renumber_order_set)
  with fid_inj [OF assms(1) _ assms(2) f(2)] assms(3) show False by simp
qed

lemma renumber_loop_False: "renumber_loop False l i items = l"
  by (induction items arbitrary: i) (auto simp: changeAttributeValue_def)

lemma numbered_renumbered:
  assumes "distinct (map fid l)" "g \<in> set l"
  shows "numbered (renumbered (map fid (renumber_order l)) g) = numbered g"
proof (cases "numbered g")
  case True
  then show ?thesis by (simp add: renumbered_def numbered_def)
next
  case False
  then show ?thesis
    using unnumbered_not_visited [OF assms False] by (simp add: renumbered_def)
qed

lemma renumbered_key:
  assumes "f \<in> set (renumber_order l)"
  shows "the (number (renumbered (map fid (renumber_order l)) f)) =
           1 + int (position (fid f) (map fid (renumber_order l)))"
  using assms by (simp add: renumbered_def)

lemma renumbered_idem: "renumbered ids (renumbered ids g) = renumbered ids g"
  by (simp add: renumbered_def)

lemma renumber_order_again:
  assumes "distinct (map fid l)"
  shows "renumber_order (map (renumbered (map fid (renumber_order l))) l) =
           map (renumbered (map fid (renumber_order l))) (renumber_order l)"
proof -
  let ?order = "renumber_order l"
  let ?ids = "map fid ?order"
  let ?G = "renumbered ?ids"
  let ?key = "\<lambda>f. the (number f)"
  let ?P = "filter numbered l"
  have dist: "distinct ?ids"
    by (rule renumber_order_distinct [OF assms])
  have P': "filter numbered (map ?G l) = map ?G ?P"
    unfolding filter_map
    by (rule arg_cong [where f = "map ?G"], rule filter_cong)
       (simp_all add: numbered_renumbered [OF assms])
  have m: "mset (map ?G ?P) = mset (map ?G ?order)"
    by (simp add: renumber_order_sort)
  have inj: "inj_on ?key (set (map ?G ?P))"
  proof (rule inj_onI)
    fix x y
    assume "x \<in> set (map ?G ?P)" "y \<in> set (map ?G ?P)" and eq: "?key x = ?key y"
    then obtain p q where p: "p \<in> set ?order" "x = ?G p" and q: "q \<in> set ?order" "y = ?G q"
      by (auto simp: renumber_order_set)
    have pos: "position (fid p) ?ids = position (fid q) ?ids"
      using eq renumbered_key [OF p(1)] renumbered_key [OF q(1)] p(2) q(2) by simp
    have mp: "fid p \<in> set ?ids" and mq: "fid q \<in> set ?ids"
      using p(1) q(1) by simp_all
    have "fid p = ?ids ! position (fid p) ?ids"
      by (rule nth_position [OF mp, symmetric])
    also have "\<dots> = ?ids ! position (fid q) ?ids"
      by (simp only: pos)
    also have "\<dots> = fid q"
      by (rule nth_position [OF mq])
    finally have "fid p = fid q" .
    moreover have "p \<in> set l" "q \<in> set l"
      using p(1) q(1) by (simp_all add: renumber_order_set)
    ultimately have "p = q"
      using fid_inj [OF assms] by blast
    then show "x = y" using p(2) q(2) by simp
  qed
  have keys: "map ?key (map ?G ?order) = map (\<lambda>j. 1 + int j) [0..<length ?ids]"
  proof -
    have "map ?key (map ?G ?order) = map (\<lambda>f. 1 + int (position (fid f) ?ids)) ?order"
      unfolding map_map comp_def by (rule map_cong) (simp_all add: renumbered_key)
    also have "\<dots> = map (\<lambda>j. 1 + int j) (map (\<lambda>x. position x ?ids) ?ids)"
      by (simp add: comp_def)
    also have "\<dots> = map (\<lambda>j. 1 + int j) [0..<length ?ids]"
      by (simp only: map_position_self [OF dist])
    finally show ?thesis .
  qed
  have srt: "sorted (map ?key (map ?G ?order))"
    unfolding keys by (simp add: sorted_iff_nth_mono)
  have "sort_key ?key (map ?G ?P) = map ?G ?order"
    by (rule sort_key_inj_key_eq [OF m inj srt])
  then show ?thesis
    using P' by (simp add: renumber_order_sort [of "map ?G l"])
qed

lemma restart_spec_example:
  "restart_numbering (started spec_example) True =
     started [\<lparr>fid = 1, number = Some 2\<rparr>, \<lparr>fid = 2, number = Some 1\<rparr>,
              \<lparr>fid = 3, number = Some 3\<rparr>, \<lparr>fid = 4, number = None\<rparr>]"
  by (simp add: restart_numbering_def started_def spec_example_def getFeatures_def
      numbered_def changeAttributeValue_def)

lemma renumber_order_spec_example:
  "renumber_order spec_example =
     [\<lparr>fid = 2, number = Some 2\<rparr>, \<lparr>fid = 1, number = Some 5\<rparr>, \<lparr>fid = 3, number = Some 8\<rparr>]"
  by (simp add: renumber_order_def spec_example_def getFeatures_def numbered_def)

section \<open>Runs of selections on an unnumbered layer\<close>

lemma map_renumbered_Nil: "map (renumbered []) l = l"
  by (induction l) (simp_all add: renumbered_def)

lemma upt_shift_upto: "map (\<lambda>j. 1 + int j) [0..<n] = [1..int n]"
proof (induction n)
  case 0
  show ?case by simp
next
  case (Suc n)
  have "[1..int (Suc n)] = [1..int n] @ [int n + 1]"
    using upto_rec2 [of 1 "int n + 1"] by (simp add: add.commute)
  then show ?case using Suc by simp
qed

lemma position_last:
  assumes "distinct xs" "xs \<noteq> []"
  shows "Suc (position (last xs) xs) = length xs"
proof -
  have "position (xs ! (length xs - 1)) xs = length xs - 1"
    using assms by (intro position_nth) simp_all
  then show ?thesis
    using assms(2) by (simp add: last_conv_nth)
qed

lemma field_renumbered_le:
  assumes "\<not> numbered g"
  shows "field_or_zero (renumbered seen g) \<le> int (length seen)"
proof (cases "fid g \<in> set seen")
  case True
  then show ?thesis
    using position_less [OF True] by (simp add: renumbered_def field_or_zero_def)
next
  case False
  then show ?thesis
    using assms by (simp add: renumbered_def field_or_zero_def numbered_def split: option.splits)
qed

lemma max_number_renumbered:
  assumes "list_all (\<lambda>f. \<not> numbered f) l" "distinct seen" "set seen \<subseteq> fid ` set l"
  shows "max_number 0 (map (renumbered seen) l) = int (length seen)"
proof -
  let ?vals = "set (0 # map field_or_zero (map (renumbered seen) l))"
  have fin: "finite ?vals" by simp
  have ub: "y \<le> int (length seen)" if "y \<in> ?vals" for y
  proof -
    from that consider "y = 0" | g where "g \<in> set l" "y = field_or_zero (renumbered seen g)"
      by auto
    then show ?thesis
    proof cases
      case 1
      then show ?thesis by simp
    next
      case 2
      then have "\<not> numbered g" using assms(1) by (simp add: list_all_iff)
      then show ?thesis using 2(2) field_renumbered_le by simp
    qed
  qed
  have mem: "int (length seen) \<in> ?vals"
  proof (cases "seen = []")
    case True
    then show ?thesis by simp
  next
    case False
    then have "last seen \<in> fid ` set l" using assms(3) last_in_set by blast
    then obtain g where g: "g \<in> set l" "fid g = last seen" by auto
    have "field_or_zero (renumbered seen g) = 1 + int (position (last seen) seen)"
      using g(2) False by (simp add: renumbered_def field_or_zero_def)
    also have "\<dots> = int (length seen)"
      using position_last [OF assms(2) False] by simp
    finally show ?thesis using g(1) by force
  qed
  have "Max ?vals = int (length seen)"
    using fin mem ub by (intro Max_eqI) auto
  then show ?thesis
    by (simp only: max_number_Max)
qed

lemma write_renumbered:
  assumes "i \<notin> set seen"
  shows "map (\<lambda>g. if fid g = i then g\<lparr>number := Some (1 + int (length seen))\<rparr> else g)
           (map (renumbered seen) l) = map (renumbered (seen @ [i])) l"
proof -
  have "(if fid (renumbered seen g) = i
         then (renumbered seen g)\<lparr>number := Some (1 + int (length seen))\<rparr>
         else renumbered seen g) = renumbered (seen @ [i]) g" for g
  proof (cases "fid g = i")
    case True
    then show ?thesis
      using assms by (simp add: renumbered_def position_append_new)
  next
    case False
    then show ?thesis
      by (simp add: renumbered_def position_append_in)
  qed
  then show ?thesis by (simp add: comp_def)
qed

lemma select_each_run:
  assumes "distinct (map fid l)" "list_all (\<lambda>f. \<not> numbered f) l"
    and "distinct (seen @ rest)" "set (seen @ rest) \<subseteq> fid ` set l"
    and "active s" "layer s = Some (map (renumbered seen) l)"
  shows "\<exists>s'. select_each s rest = Inr s' \<and> active s' \<and>
           layer s' = Some (map (renumbered (seen @ rest)) l)"
  using assms(3-6)
proof (induction rest arbitrary: s seen)
  case Nil
  then show ?case by simp
next
  case (Cons i rest)
  let ?cur = "map (renumbered seen) l"
  have i: "i \<notin> set seen" and dd: "distinct seen" and sub: "set seen \<subseteq> fid ` set l"
    using Cons.prems(1,2) by auto
  obtain f where f: "f \<in> set l" "fid f = i"
    using Cons.prems(2) by auto
  have same: "renumbered seen f = f"
    using i f(2) by (simp add: renumbered_def)
  have dcur: "distinct (map fid ?cur)"
    using assms(1) by (simp add: comp_def)
  have "f \<in> set ?cur"
    using f(1) same by force
  then have "filter (\<lambda>g. fid g = fid f) ?cur = [f]"
    using dcur by (intro filter_fid_single)
  then have sel: "selectedFeatures ?cur [i] = [f]"
    using f(2) by (simp add: selectedFeatures_def)
  have nn: "\<not> numbered f"
    using assms(2) f(1) by (simp add: list_all_iff)
  have nxt: "next_number ?cur = 1 + int (length seen)"
    using max_number_renumbered [OF assms(2) dd sub]
    by (simp add: next_number_def getFeatures_def)
  let ?s1 = "s\<lparr>history := history s @
                   [\<lparr>feature_id = fid f, old_value = number f, new_value = next_number ?cur\<rparr>],
                 layer := Some (map (\<lambda>g. if fid g = fid f
                                          then g\<lparr>number := Some (next_number ?cur)\<rparr> else g) ?cur),
                 messages := messages s @ [Success (next_number ?cur)], undo_btn := True\<rparr>"
  have step: "number_selected s [i] True = Inr ?s1"
    using number_selected_assign [OF Cons.prems(3,4) sel nn, of True] by simp
  have "layer ?s1 = Some (map (\<lambda>g. if fid g = i
            then g\<lparr>number := Some (1 + int (length seen))\<rparr> else g) ?cur)"
    by (simp add: nxt f(2))
  then have lay1: "layer ?s1 = Some (map (renumbered (seen @ [i])) l)"
    by (simp only: write_renumbered [OF i])
  have act1: "active ?s1"
    using Cons.prems(3) by simp
  have "\<exists>s'. select_each ?s1 rest = Inr s' \<and> active s' \<and>
           layer s' = Some (map (renumbered ((seen @ [i]) @ rest)) l)"
    using Cons.prems(1,2) by (intro Cons.IH [OF _ _ act1 lay1]) simp_all
  then show ?case
    using step by simp
qed

section \<open>Guards of \<^verbatim>\<open>number_selected\<close>\<close>

text \<open>
  Claim C8: \<^verbatim>\<open>number_selected\<close> leaves every feature's field value and the undo stack
  unchanged whenever the activation flag is false, the current selection has no feature
  or more than one, or the single selected feature already has a positive field value.
  The call returns the controller exactly as it was.
\<close>

theorem number_selected_frame:
  assumes "\<not> active s \<or> (\<exists>l. layer s = Some l \<and>
            (length (selectedFeatures l sel) = 0 \<or> length (selectedFeatures l sel) > 1
             \<or> (\<exists>f. selectedFeatures l sel = [f] \<and> numbered f)))"
  shows "number_selected s sel ok = Inr s"
  using assms by (auto simp: number_selected_def split: list.splits)

theorem number_selected_frame_witness:
  "length (selectedFeatures spec_example [1, 2]) = 2
   \<and> number_selected (started spec_example) [1, 2] True = Inr (started spec_example)
   \<and> selectedFeatures spec_example [3] = [\<lparr>fid = 3, number = Some 8\<rparr>]
   \<and> numbered \<lparr>fid = 3, number = Some 8\<rparr>
   \<and> number_selected (started spec_example) [3] True = Inr (started spec_example)"
proof -
  have a: "length (selectedFeatures spec_example [1, 2]) = 2"
    by (simp add: selectedFeatures_def spec_example_def)
  have b: "selectedFeatures spec_example [3] = [\<lparr>fid = 3, number = Some 8\<rparr>]"
    by (simp add: selectedFeatures_def spec_example_def)
  have c: "numbered \<lparr>fid = 3, number = Some 8\<rparr>"
    by (simp add: numbered_def)
  have l: "layer (started spec_example) = Some spec_example"
    by (simp add: started_def)
  have "number_selected (started spec_example) [1, 2] True = Inr (started spec_example)"
    using a l by (intro number_selected_frame) simp
  moreover have "number_selected (started spec_example) [3] True = Inr (started spec_example)"
    using b c l by (intro number_selected_frame) simp
  ultimately show ?thesis using a b c by simp
qed

section \<open>The value written by \<^verbatim>\<open>number_selected\<close>\<close>

text \<open>
  Claim C10: every value that \<^verbatim>\<open>number_selected\<close> writes into the number field is at
  least 1, whatever the existing field values are (none, negative, zero): a field value
  that differs after the call is the next number, the record pushed by the call carries
  the next number, and the next number is at least 1.
\<close>

theorem written_number_positive:
  assumes "number_selected s sel ok = Inr s'" and "layer s = Some l"
  shows "\<exists>l'. layer s' = Some l' \<and> length l' = length l \<and>
           (\<forall>k<length l. number (l' ! k) \<noteq> number (l ! k) \<longrightarrow>
              number (l' ! k) = Some (next_number l) \<and> 1 \<le> next_number l) \<and>
           (\<forall>r. history s' = history s @ [r] \<longrightarrow>
              new_value r = next_number l \<and> 1 \<le> new_value r)"
proof -
  from number_selected_cases [OF assms(1)]
  consider "s' = s"
    | f where "active s" "selectedFeatures l sel = [f]" "\<not> numbered f"
    using assms(2) by auto
  then show ?thesis
  proof cases
    case 1
    then show ?thesis using assms(2) by simp
  next
    case 2
    then show ?thesis
      using number_selected_assign [OF 2(1) assms(2) 2(2,3), of ok] assms(1)
        next_number_pos [of l]
      by (cases ok) auto
  qed
qed

theorem written_number_positive_witness:
  "number_selected (started [\<lparr>fid = 1, number = Some (- 3)\<rparr>]) [1] True =
     Inr \<lparr>layer = Some [\<lparr>fid = 1, number = Some 1\<rparr>],
          history = [\<lparr>feature_id = 1, old_value = Some (- 3), new_value = 1\<rparr>],
          active = True, undo_btn = True, messages = [Success 1]\<rparr>
   \<and> next_number [\<lparr>fid = 1, number = Some (- 3)\<rparr>] = 1"
proof -
  let ?l = "[\<lparr>fid = 1, number = Some (- 3)\<rparr>]"
  let ?s' = "\<lparr>layer = Some [\<lparr>fid = 1, number = Some 1\<rparr>],
          history = [\<lparr>feature_id = 1, old_value = Some (- 3), new_value = 1\<rparr>],
          active = True, undo_btn = True, messages = [Success 1]\<rparr>"
  have run: "number_selected (started ?l) [1] True = Inr ?s'"
    by (simp add: number_selected_def started_def selectedFeatures_def numbered_def
        next_number_def getFeatures_def changeAttributeValue_def)
  have lay: "layer (started ?l) = Some ?l"
    by (simp add: started_def)
  from written_number_positive [OF run lay]
  have "number (?l ! 0) \<noteq> Some 1 \<longrightarrow> Some 1 = Some (next_number ?l)"
    by auto
  then have "next_number ?l = 1" by simp
  with run show ?thesis by simp
qed

section \<open>The next number and the undo record of an assignment\<close>

text \<open>
  Claim C2, as stated: the value written equals \<open>spec_next\<close>, one plus the maximum of the
  field values with a missing value counting as 0. It fails on a layer whose only
  feature holds \<open>- 3\<close>: the scan starts from 0 and skips the negative value, so the code
  writes 1, while the stated formula gives \<open>- 2\<close>.
\<close>

theorem spec_next_counterexample:
  "number_selected (started [\<lparr>fid = 1, number = Some (- 3)\<rparr>]) [1] True =
     Inr \<lparr>layer = Some [\<lparr>fid = 1, number = Some 1\<rparr>],
          history = [\<lparr>feature_id = 1, old_value = Some (- 3), new_value = 1\<rparr>],
          active = True, undo_btn = True, messages = [Success 1]\<rparr>
   \<and> spec_next [\<lparr>fid = 1, number = Some (- 3)\<rparr>] = - 2"
  by (simp add: number_selected_def started_def selectedFeatures_def numbered_def
        next_number_def getFeatures_def changeAttributeValue_def spec_next_def field_or_zero_def)

text \<open>
  Claim C2, amended: when \<^verbatim>\<open>number_selected\<close> performs an assignment, the value it hands
  to the write and stores as \<^verbatim>\<open>new_value\<close> is one plus the maximum of 0 and all field
  values (a missing value counting as 0): the 0 takes part in the maximum for every
  collection, not only for the empty one. When the host accepts the write, this is the
  selected feature's field value afterwards. The value is the one of the stated formula
  whenever some feature's value is missing or not negative.
\<close>

theorem assigned_value_formula:
  assumes "active s" "layer s = Some l" "selectedFeatures l sel = [f]" "\<not> numbered f"
  shows "\<exists>s' l'. number_selected s sel ok = Inr s' \<and> layer s' = Some l' \<and>
           history s' = history s @ [\<lparr>feature_id = fid f, old_value = number f,
              new_value = 1 + Max (set (0 # map field_or_zero l))\<rparr>] \<and>
           (ok \<longrightarrow> value_of l' (fid f) = Some (1 + Max (set (0 # map field_or_zero l)))) \<and>
           ((\<exists>g\<in>set l. 0 \<le> field_or_zero g) \<longrightarrow>
              1 + Max (set (0 # map field_or_zero l)) = spec_next l)"
proof -
  have n: "next_number l = 1 + Max (set (0 # map field_or_zero l))"
    using max_number_Max [of l] by (simp add: next_number_def getFeatures_def)
  have m: "fid f \<in> fid ` set l"
    using selected_single_mem [OF assms(3)] by simp
  have agree: "(\<exists>g\<in>set l. 0 \<le> field_or_zero g) \<longrightarrow>
              1 + Max (set (0 # map field_or_zero l)) = spec_next l"
    using spec_next_agrees [of _ l] n by auto
  show ?thesis
  proof (cases ok)
    case True
    then show ?thesis
      using number_selected_assign [OF assms, of True] n value_of_write [OF m] agree
      by simp
  next
    case False
    then show ?thesis
      using number_selected_assign [OF assms, of False] n agree by simp
  qed
qed

theorem assigned_value_formula_witness:
  "active (started spec_example) \<and> layer (started spec_example) = Some spec_example
   \<and> selectedFeatures spec_example [4] = [\<lparr>fid = 4, number = None\<rparr>]
   \<and> \<not> numbered \<lparr>fid = 4, number = None\<rparr>
   \<and> (\<exists>s' l'. number_selected (started spec_example) [4] True = Inr s' \<and> layer s' = Some l' \<and>
         history s' = [\<lparr>feature_id = 4, old_value = None, new_value = 9\<rparr>] \<and>
         value_of l' 4 = Some 9)
   \<and> spec_next spec_example = 9"
proof -
  have a: "active (started spec_example)" and b: "layer (started spec_example) = Some spec_example"
    by (simp_all add: started_def)
  have c: "selectedFeatures spec_example [4] = [\<lparr>fid = 4, number = None\<rparr>]"
    by (simp add: selectedFeatures_def spec_example_def)
  have d: "\<not> numbered \<lparr>fid = 4, number = None\<rparr>"
    by (simp add: numbered_def)
  have e: "1 + Max (set (0 # map field_or_zero spec_example)) = 9"
    by (simp add: spec_example_def field_or_zero_def)
  have h: "history (started spec_example) = []"
    by (simp add: started_def)
  have g: "\<exists>g\<in>set spec_example. 0 \<le> field_or_zero g"
    by (simp add: spec_example_def field_or_zero_def)
  from assigned_value_formula [OF a b c d, of True]
  show ?thesis using a b c d g unfolding e h by auto
qed


text \<open>
  Claim C3, as stated: a record is on the stack if and only if the host reports that the
  write succeeded, and a failed write leaves the stack unchanged. It fails when the host
  rejects the write: \<^verbatim>\<open>self.history.append\<close> comes before \<^verbatim>\<open>changeAttributeValue\<close>, so
  the record is on the stack although the write reported failure.
\<close>

theorem failed_write_still_pushes:
  "fst (changeAttributeValue False [\<lparr>fid = 1, number = None\<rparr>] 1 (Some 1)) = False
   \<and> number_selected (started [\<lparr>fid = 1, number = None\<rparr>]) [1] False =
     Inr \<lparr>layer = Some [\<lparr>fid = 1, number = None\<rparr>],
          history = [\<lparr>feature_id = 1, old_value = None, new_value = 1\<rparr>],
          active = True, undo_btn = False, messages = []\<rparr>"
  by (simp add: number_selected_def started_def selectedFeatures_def numbered_def
        next_number_def getFeatures_def changeAttributeValue_def)

text \<open>
  Claim C3, amended: for every run of \<^verbatim>\<open>number_selected\<close> that returns, a new record
  \<open>{feature_id, old_value, new_value}\<close> is pushed exactly when the run passes the guards
  (active, exactly one selected feature, that feature not positively numbered); the
  record is pushed before the write and stays on the stack whatever the host reports.
  Only the success notification and the enabling of the undo button depend on the
  host's report. When a guard stops the run, the stack is unchanged.
\<close>

theorem record_pushed_before_write:
  assumes "number_selected s sel ok = Inr s'" and "layer s = Some l"
  shows "(\<forall>f. active s \<and> selectedFeatures l sel = [f] \<and> \<not> numbered f \<longrightarrow>
            fst (changeAttributeValue ok l (fid f) (Some (next_number l))) = ok \<and>
            history s' = history s @
              [\<lparr>feature_id = fid f, old_value = number f, new_value = next_number l\<rparr>] \<and>
            undo_btn s' = (ok \<or> undo_btn s) \<and>
            messages s' = (if ok then messages s @ [Success (next_number l)] else messages s))
       \<and> (\<not> (active s \<and> (\<exists>f. selectedFeatures l sel = [f] \<and> \<not> numbered f)) \<longrightarrow>
            history s' = history s)"
proof -
  have "history s' = history s"
    if "\<not> (active s \<and> (\<exists>f. selectedFeatures l sel = [f] \<and> \<not> numbered f))"
    using number_selected_cases [OF assms(1)] that assms(2) by auto
  moreover have "fst (changeAttributeValue ok l (fid f) (Some (next_number l))) = ok \<and>
            history s' = history s @
              [\<lparr>feature_id = fid f, old_value = number f, new_value = next_number l\<rparr>] \<and>
            undo_btn s' = (ok \<or> undo_btn s) \<and>
            messages s' = (if ok then messages s @ [Success (next_number l)] else messages s)"
    if "active s \<and> selectedFeatures l sel = [f] \<and> \<not> numbered f" for f
    using number_selected_assign [of s l sel f ok] that assms
    by (cases ok) (auto simp: changeAttributeValue_def)
  ultimately show ?thesis by blast
qed

theorem record_pushed_before_write_witness:
  "number_selected (started [\<lparr>fid = 1, number = None\<rparr>]) [1] False =
     Inr \<lparr>layer = Some [\<lparr>fid = 1, number = None\<rparr>],
          history = [\<lparr>feature_id = 1, old_value = None, new_value = 1\<rparr>],
          active = True, undo_btn = False, messages = []\<rparr>
   \<and> layer (started [\<lparr>fid = 1, number = None\<rparr>]) = Some [\<lparr>fid = 1, number = None\<rparr>]
   \<and> active (started [\<lparr>fid = 1, number = None\<rparr>])
   \<and> selectedFeatures [\<lparr>fid = 1, number = None\<rparr>] [1] = [\<lparr>fid = 1, number = None\<rparr>]
   \<and> \<not> numbered \<lparr>fid = 1, number = None\<rparr>
   \<and> next_number [\<lparr>fid = 1, number = None\<rparr>] = 1"
proof -
  let ?f = "\<lparr>fid = 1, number = None\<rparr>"
  let ?s' = "\<lparr>layer = Some [?f],
          history = [\<lparr>feature_id = 1, old_value = None, new_value = 1\<rparr>],
          active = True, undo_btn = False, messages = []\<rparr>"
  have run: "number_selected (started [?f]) [1] False = Inr ?s'"
    by (simp add: number_selected_def started_def selectedFeatures_def numbered_def
        next_number_def getFeatures_def changeAttributeValue_def)
  have lay: "layer (started [?f]) = Some [?f]" and act: "active (started [?f])"
    and h: "history (started [?f]) = []"
    by (simp_all add: started_def)
  have sel: "selectedFeatures [?f] [1] = [?f]"
    by (simp add: selectedFeatures_def)
  have nn: "\<not> numbered ?f"
    by (simp add: numbered_def)
  from record_pushed_before_write [OF run lay] act sel nn
  have "history ?s' = history (started [?f]) @
      [\<lparr>feature_id = fid ?f, old_value = number ?f, new_value = next_number [?f]\<rparr>]"
    by blast
  then have "next_number [?f] = 1"
    unfolding h by simp
  then show ?thesis using run lay act sel nn by simp
qed

section \<open>Numbering every feature by selection\<close>

text \<open>
  Claim C1: on a collection of \<open>n\<close> features none of which is numbered, a sequence of
  single-feature selections that selects each feature exactly once (in any order, the
  host accepting the writes) ends with the field values being exactly 1, ..., \<open>n\<close>, each
  once: the feature selected as the \<open>j\<close>-th (counted from 0) holds \<open>j + 1\<close>.
\<close>

theorem selections_number_1_to_n:
  assumes "active s" and "layer s = Some l" and "distinct (map fid l)"
    and "list_all (\<lambda>f. \<not> numbered f) l"
    and "distinct sels" and "set sels = fid ` set l"
  shows "\<exists>s' l'. select_each s sels = Inr s' \<and> layer s' = Some l' \<and>
           map fid l' = map fid l \<and>
           (\<forall>j<length sels. value_of l' (sels ! j) = Some (int j + 1)) \<and>
           mset (map number l') = mset (map Some [1..int (length l)])"
proof -
  let ?l' = "map (renumbered sels) l"
  have "layer s = Some (map (renumbered []) l)"
    using assms(2) by (simp only: map_renumbered_Nil)
  from select_each_run [OF assms(3,4) _ _ assms(1) this, of sels]
  obtain s' where s': "select_each s sels = Inr s'" "layer s' = Some ?l'"
    using assms(5,6) by auto
  have ids: "map fid ?l' = map fid l"
    by (simp add: comp_def)
  have vals: "value_of ?l' (sels ! j) = Some (int j + 1)" if "j < length sels" for j
  proof -
    have "sels ! j \<in> fid ` set l"
      using that assms(6) nth_mem by blast
    then obtain f where f: "f \<in> set l" "fid f = sels ! j" by auto
    have "number (renumbered sels f) = Some (int j + 1)"
      using f(2) that position_nth [OF assms(5) that] by (simp add: renumbered_def)
    then show ?thesis
      using value_of_map [of l f "renumbered sels"] assms(3) f by simp
  qed
  have "set (map fid l) = set sels"
    using assms(6) by simp
  then have perm: "mset (map fid l) = mset sels"
    using set_eq_iff_mset_eq_distinct [OF assms(3,5)] by blast
  then have len: "length l = length sels"
    by (metis length_map size_mset)
  let ?h = "\<lambda>i. Some (1 + int (position i sels))"
  have "map number ?l' = map ?h (map fid l)"
    using assms(6) by (simp add: renumbered_def comp_def)
  then have "mset (map number ?l') = mset (map ?h (map fid l))"
    by (simp only:)
  also have "\<dots> = image_mset ?h (mset (map fid l))"
    by (rule mset_map)
  also have "\<dots> = image_mset ?h (mset sels)"
    by (simp only: perm)
  also have "\<dots> = mset (map ?h sels)"
    by (rule mset_map [symmetric])
  also have "map ?h sels = map Some (map (\<lambda>j. 1 + int j) (map (\<lambda>i. position i sels) sels))"
    by (simp add: comp_def)
  also have "\<dots> = map Some [1..int (length l)]"
    by (simp only: map_position_self [OF assms(5)] upt_shift_upto len)
  finally have "mset (map number ?l') = mset (map Some [1..int (length l)])" .
  then show ?thesis
    using s' ids vals by blast
qed


theorem selections_number_1_to_n_witness:
  "active (started three_unnumbered)
   \<and> layer (started three_unnumbered) = Some three_unnumbered
   \<and> distinct (map fid three_unnumbered)
   \<and> list_all (\<lambda>f. \<not> numbered f) three_unnumbered
   \<and> distinct [20, 30, 10 :: int]
   \<and> set [20, 30, 10] = fid ` set three_unnumbered
   \<and> select_each (started three_unnumbered) [20, 30, 10] =
       Inr \<lparr>layer = Some [\<lparr>fid = 10, number = Some 3\<rparr>, \<lparr>fid = 20, number = Some 1\<rparr>,
                           \<lparr>fid = 30, number = Some 2\<rparr>],
            history = [\<lparr>feature_id = 20, old_value = None, new_value = 1\<rparr>,
                       \<lparr>feature_id = 30, old_value = None, new_value = 2\<rparr>,
                       \<lparr>feature_id = 10, old_value = None, new_value = 3\<rparr>],
            active = True, undo_btn = True,
            messages = [Success 1, Success 2, Success 3]\<rparr>
   \<and> (\<exists>s' l'. select_each (started three_unnumbered) [20, 30, 10] = Inr s'
          \<and> layer s' = Some l' \<and> map fid l' = [10, 20, 30]
          \<and> value_of l' 20 = Some 1 \<and> value_of l' 30 = Some 2 \<and> value_of l' 10 = Some 3
          \<and> mset (map number l') = mset [Some 1, Some 2, Some 3])"
proof -
  let ?s = "started three_unnumbered"
  have a: "active ?s" and b: "layer ?s = Some three_unnumbered"
    by (simp_all add: started_def)
  have c: "distinct (map fid three_unnumbered)"
    by (simp add: three_unnumbered_def)
  have d: "list_all (\<lambda>f. \<not> numbered f) three_unnumbered"
    by (simp add: three_unnumbered_def numbered_def)
  have e: "distinct [20, 30, 10 :: int]"
    by simp
  have f: "set [20, 30, 10] = fid ` set three_unnumbered"
    by (auto simp: three_unnumbered_def)
  have run: "select_each ?s [20, 30, 10] =
       Inr \<lparr>layer = Some [\<lparr>fid = 10, number = Some 3\<rparr>, \<lparr>fid = 20, number = Some 1\<rparr>,
                           \<lparr>fid = 30, number = Some 2\<rparr>],
            history = [\<lparr>feature_id = 20, old_value = None, new_value = 1\<rparr>,
                       \<lparr>feature_id = 30, old_value = None, new_value = 2\<rparr>,
                       \<lparr>feature_id = 10, old_value = None, new_value = 3\<rparr>],
            active = True, undo_btn = True,
            messages = [Success 1, Success 2, Success 3]\<rparr>"
    by (simp add: started_def three_unnumbered_def number_selected_def selectedFeatures_def
        numbered_def next_number_def getFeatures_def changeAttributeValue_def)
  from selections_number_1_to_n [OF a b c d e f]
  obtain s' l' where r: "select_each ?s [20, 30, 10] = Inr s'" "layer s' = Some l'"
      "map fid l' = map fid three_unnumbered"
      "\<forall>j<length [20, 30, 10 :: int]. value_of l' ([20, 30, 10] ! j) = Some (int j + 1)"
      "mset (map number l') = mset (map Some [1..int (length three_unnumbered)])"
    by blast
  have "value_of l' 20 = Some 1"
    using r(4) [rule_format, of 0] by simp
  moreover have "value_of l' 30 = Some 2"
    using r(4) [rule_format, of 1] by simp
  moreover have "value_of l' 10 = Some 3"
    using r(4) [rule_format, of 2] by simp
  moreover have "map fid l' = [10, 20, 30]"
    using r(3) by (simp add: three_unnumbered_def)
  moreover have "[1..int (length three_unnumbered)] = [1, 2, 3]"
    by (simp add: three_unnumbered_def upto_rec1)
  then have "mset (map number l') = mset [Some 1, Some 2, Some 3]"
    using r(5) by simp
  ultimately show ?thesis
    using a b c d e f run r(1,2) by simp
qed


section \<open>\<^verbatim>\<open>undo_last\<close> after assignments\<close>

text \<open>
  Claim C4: \<^verbatim>\<open>undo_last\<close> is a strict, stack-ordered inverse of assignment. After a
  successful assignment to \<open>f\<close>, \<^verbatim>\<open>undo_last\<close> (with its write accepted) gives back the
  layer and the stack of before, so \<open>f\<close>'s field value is its value before the
  assignment. After assignments to \<open>f\<close> and then \<open>f'\<close>, the first \<^verbatim>\<open>undo_last\<close> restores the
  value of \<open>f'\<close> and leaves \<open>f\<close> numbered (layer and stack as they were between the two
  assignments), and the second restores the value of \<open>f\<close>.
\<close>

theorem undo_last_inverse:
  assumes "active s" "layer s = Some l" "selectedFeatures l sel = [f]" "\<not> numbered f"
      and "number_selected s sel True = Inr s1"
  shows "(\<exists>s2. undo_last s1 True = Inr s2 \<and> layer s2 = Some l \<and> history s2 = history s \<and>
            value_of l (fid f) = number f)
       \<and> (\<forall>sel' f' s2. selectedFeatures (the (layer s1)) sel' = [f'] \<and> \<not> numbered f' \<and>
                number_selected s1 sel' True = Inr s2 \<longrightarrow>
            (\<exists>s3 s4. undo_last s2 True = Inr s3 \<and> layer s3 = layer s1 \<and>
                history s3 = history s1 \<and>
                value_of (the (layer s3)) (fid f) = Some (next_number l) \<and>
                value_of (the (layer s3)) (fid f') = number f' \<and>
                undo_last s3 True = Inr s4 \<and> layer s4 = Some l \<and> history s4 = history s))"
proof -
  let ?l1 = "map (\<lambda>g. if fid g = fid f then g\<lparr>number := Some (next_number l)\<rparr> else g) l"
  let ?r1 = "\<lparr>feature_id = fid f, old_value = number f, new_value = next_number l\<rparr>"
  have s1: "layer s1 = Some ?l1" "history s1 = history s @ [?r1]" "active s1"
    using number_selected_assign [OF assms(1-4), of True] assms(5,1) by auto
  have first: "\<exists>s2. undo_last s1 True = Inr s2 \<and> layer s2 = Some l \<and> history s2 = history s"
    by (rule undo_after_assign [OF assms(3) s1(1) s1(2)])
  have v1: "value_of ?l1 (fid f) = Some (next_number l)"
    using selected_single_mem [OF assms(3)] by (intro value_of_write) simp
  have second: "\<exists>s3 s4. undo_last s2 True = Inr s3 \<and> layer s3 = layer s1 \<and>
                history s3 = history s1 \<and>
                value_of (the (layer s3)) (fid f) = Some (next_number l) \<and>
                value_of (the (layer s3)) (fid f') = number f' \<and>
                undo_last s3 True = Inr s4 \<and> layer s4 = Some l \<and> history s4 = history s"
    if h: "selectedFeatures (the (layer s1)) sel' = [f']" "\<not> numbered f'"
          "number_selected s1 sel' True = Inr s2" for sel' f' s2
  proof -
    have sel': "selectedFeatures ?l1 sel' = [f']" using h(1) s1(1) by simp
    let ?l2 = "map (\<lambda>g. if fid g = fid f' then g\<lparr>number := Some (next_number ?l1)\<rparr> else g) ?l1"
    let ?r2 = "\<lparr>feature_id = fid f', old_value = number f', new_value = next_number ?l1\<rparr>"
    have s2: "layer s2 = Some ?l2" "history s2 = history s1 @ [?r2]"
      using number_selected_assign [OF s1(3) s1(1) sel' h(2), of True] h(3) by auto
    obtain s3 where s3: "undo_last s2 True = Inr s3" "layer s3 = Some ?l1" "history s3 = history s1"
      using undo_after_assign [OF sel' s2(1) s2(2)] by blast
    have hs3: "history s3 = history s @ [?r1]"
      using s3(3) s1(2) by simp
    obtain s4 where s4: "undo_last s3 True = Inr s4" "layer s4 = Some l" "history s4 = history s"
      using undo_after_assign [OF assms(3) s3(2) hs3] by blast
    show ?thesis
      using s3 s4 s1(1) v1 value_of_selected [OF sel'] by simp
  qed
  show ?thesis
    using first second value_of_selected [OF assms(3)] by blast
qed


theorem undo_last_inverse_witness:
  "active (started two_unnumbered) \<and> layer (started two_unnumbered) = Some two_unnumbered
   \<and> selectedFeatures two_unnumbered [1] = [\<lparr>fid = 1, number = None\<rparr>]
   \<and> \<not> numbered \<lparr>fid = 1, number = None\<rparr>
   \<and> number_selected (started two_unnumbered) [1] True =
       Inr \<lparr>layer = Some [\<lparr>fid = 1, number = Some 1\<rparr>, \<lparr>fid = 2, number = None\<rparr>],
            history = [\<lparr>feature_id = 1, old_value = None, new_value = 1\<rparr>],
            active = True, undo_btn = True, messages = [Success 1]\<rparr>
   \<and> (\<exists>s2. undo_last \<lparr>layer = Some [\<lparr>fid = 1, number = Some 1\<rparr>, \<lparr>fid = 2, number = None\<rparr>],
            history = [\<lparr>feature_id = 1, old_value = None, new_value = 1\<rparr>],
            active = True, undo_btn = True, messages = [Success 1]\<rparr> True = Inr s2
          \<and> layer s2 = Some two_unnumbered \<and> history s2 = [])
   \<and> (\<exists>s3 s4. undo_last \<lparr>layer = Some [\<lparr>fid = 1, number = Some 1\<rparr>, \<lparr>fid = 2, number = Some 2\<rparr>],
            history = [\<lparr>feature_id = 1, old_value = None, new_value = 1\<rparr>,
                       \<lparr>feature_id = 2, old_value = None, new_value = 2\<rparr>],
            active = True, undo_btn = True, messages = [Success 1, Success 2]\<rparr> True = Inr s3
          \<and> layer s3 = Some [\<lparr>fid = 1, number = Some 1\<rparr>, \<lparr>fid = 2, number = None\<rparr>]
          \<and> undo_last s3 True = Inr s4 \<and> layer s4 = Some two_unnumbered \<and> history s4 = [])"
proof -
  let ?s = "started two_unnumbered"
  let ?f1 = "\<lparr>fid = 1, number = None\<rparr>"
  let ?f2 = "\<lparr>fid = 2, number = None\<rparr>"
  let ?l1 = "[\<lparr>fid = 1, number = Some 1\<rparr>, \<lparr>fid = 2, number = None\<rparr>]"
  let ?s1 = "\<lparr>layer = Some ?l1,
            history = [\<lparr>feature_id = 1, old_value = None, new_value = 1\<rparr>],
            active = True, undo_btn = True, messages = [Success 1]\<rparr>"
  let ?s2 = "\<lparr>layer = Some [\<lparr>fid = 1, number = Some 1\<rparr>, \<lparr>fid = 2, number = Some 2\<rparr>],
            history = [\<lparr>feature_id = 1, old_value = None, new_value = 1\<rparr>,
                       \<lparr>feature_id = 2, old_value = None, new_value = 2\<rparr>],
            active = True, undo_btn = True, messages = [Success 1, Success 2]\<rparr>"
  have a: "active ?s" and b: "layer ?s = Some two_unnumbered" and h: "history ?s = []"
    by (simp_all add: started_def)
  have c: "selectedFeatures two_unnumbered [1] = [?f1]"
    by (simp add: selectedFeatures_def two_unnumbered_def)
  have d: "\<not> numbered ?f1" and d2: "\<not> numbered ?f2"
    by (simp_all add: numbered_def)
  have e: "number_selected ?s [1] True = Inr ?s1"
    by (simp add: number_selected_def started_def selectedFeatures_def numbered_def
        next_number_def getFeatures_def changeAttributeValue_def two_unnumbered_def)
  have c2: "selectedFeatures (the (layer ?s1)) [2] = [?f2]"
    by (simp add: selectedFeatures_def)
  have e2: "number_selected ?s1 [2] True = Inr ?s2"
    by (simp add: number_selected_def selectedFeatures_def numbered_def
        next_number_def getFeatures_def changeAttributeValue_def)
  note inv = undo_last_inverse [OF a b c d e]
  from inv have first: "\<exists>s2. undo_last ?s1 True = Inr s2 \<and> layer s2 = Some two_unnumbered
      \<and> history s2 = []"
    unfolding h by blast
  from inv c2 d2 e2
  have "\<exists>s3 s4. undo_last ?s2 True = Inr s3 \<and> layer s3 = layer ?s1 \<and>
          history s3 = history ?s1 \<and>
          value_of (the (layer s3)) (fid ?f1) = Some (next_number two_unnumbered) \<and>
          value_of (the (layer s3)) (fid ?f2) = number ?f2 \<and>
          undo_last s3 True = Inr s4 \<and> layer s4 = Some two_unnumbered \<and>
          history s4 = history ?s"
    by blast
  then have second: "\<exists>s3 s4. undo_last ?s2 True = Inr s3 \<and> layer s3 = Some ?l1
      \<and> undo_last s3 True = Inr s4 \<and> layer s4 = Some two_unnumbered \<and> history s4 = []"
    unfolding h by auto
  show ?thesis
    using a b c d e first second by simp
qed

section \<open>\<^verbatim>\<open>reset_numbers\<close>\<close>

text \<open>
  Claim C7: \<^verbatim>\<open>reset_numbers\<close> with the confirmation given sets the number field of every
  feature of the collection to \<^verbatim>\<open>None\<close> (the host accepting the writes) and clears the
  undo stack; with the confirmation declined it leaves the controller as it was; and
  after a confirmed reset any sequence of \<^verbatim>\<open>undo_last\<close> calls changes nothing, the stack
  being empty.
\<close>

theorem reset_numbers_clears:
  assumes "layer s = Some l"
  shows "(\<exists>l'. layer (reset_numbers s Yes True) = Some l' \<and> map fid l' = map fid l \<and>
            list_all (\<lambda>f. number f = None) l')
       \<and> history (reset_numbers s Yes ok) = []
       \<and> reset_numbers s No ok = s
       \<and> undo_each (reset_numbers s Yes ok) oks = Inr (reset_numbers s Yes ok)"
proof -
  have l': "reset_loop True l (getFeatures l) = map (\<lambda>f. f\<lparr>number := None\<rparr>) l"
    unfolding reset_loop_True getFeatures_def by (rule map_cong) auto
  have "layer (reset_numbers s Yes True) = Some (map (\<lambda>f. f\<lparr>number := None\<rparr>) l)"
    using assms l' by (simp add: reset_numbers_def)
  moreover have "map fid (map (\<lambda>f. f\<lparr>number := None\<rparr>) l) = map fid l"
    by simp
  moreover have "list_all (\<lambda>f. number f = None) (map (\<lambda>f. f\<lparr>number := None\<rparr>) l)"
    by (simp add: list_all_iff)
  moreover have h: "history (reset_numbers s Yes ok) = []"
    using assms by (simp add: reset_numbers_def)
  moreover have "reset_numbers s No ok = s"
    using assms by (simp add: reset_numbers_def)
  moreover note undo_each_empty [OF h, of oks]
  ultimately show ?thesis by simp
qed


theorem reset_numbers_clears_witness:
  "layer \<lparr>layer = Some spec_example,
          history = [\<lparr>feature_id = 3, old_value = None, new_value = 8\<rparr>],
          active = True, undo_btn = True, messages = [Success 8]\<rparr> = Some spec_example
   \<and> reset_numbers \<lparr>layer = Some spec_example,
          history = [\<lparr>feature_id = 3, old_value = None, new_value = 8\<rparr>],
          active = True, undo_btn = True, messages = [Success 8]\<rparr> Yes True =
       \<lparr>layer = Some [\<lparr>fid = 1, number = None\<rparr>, \<lparr>fid = 2, number = None\<rparr>,
                      \<lparr>fid = 3, number = None\<rparr>, \<lparr>fid = 4, number = None\<rparr>],
        history = [], active = True, undo_btn = False, messages = [Success 8]\<rparr>
   \<and> undo_each \<lparr>layer = Some [\<lparr>fid = 1, number = None\<rparr>, \<lparr>fid = 2, number = None\<rparr>,
                      \<lparr>fid = 3, number = None\<rparr>, \<lparr>fid = 4, number = None\<rparr>],
        history = [], active = True, undo_btn = False, messages = [Success 8]\<rparr>
        [True, False, True] =
       Inr \<lparr>layer = Some [\<lparr>fid = 1, number = None\<rparr>, \<lparr>fid = 2, number = None\<rparr>,
                      \<lparr>fid = 3, number = None\<rparr>, \<lparr>fid = 4, number = None\<rparr>],
        history = [], active = True, undo_btn = False, messages = [Success 8]\<rparr>"
proof -
  let ?s = "\<lparr>layer = Some spec_example,
          history = [\<lparr>feature_id = 3, old_value = None, new_value = 8\<rparr>],
          active = True, undo_btn = True, messages = [Success 8]\<rparr>"
  have lay: "layer ?s = Some spec_example"
    by simp
  have run: "reset_numbers ?s Yes True =
       \<lparr>layer = Some [\<lparr>fid = 1, number = None\<rparr>, \<lparr>fid = 2, number = None\<rparr>,
                      \<lparr>fid = 3, number = None\<rparr>, \<lparr>fid = 4, number = None\<rparr>],
        history = [], active = True, undo_btn = False, messages = [Success 8]\<rparr>"
    by (simp add: reset_numbers_def getFeatures_def spec_example_def changeAttributeValue_def)
  from reset_numbers_clears [OF lay, of True "[True, False, True]"]
  have "undo_each (reset_numbers ?s Yes True) [True, False, True] =
          Inr (reset_numbers ?s Yes True)"
    by blast
  then show ?thesis
    unfolding run using lay by simp
qed

section \<open>\<^verbatim>\<open>restart_numbering\<close>\<close>

text \<open>
  Claim C5: \<^verbatim>\<open>restart_numbering\<close> selects exactly the features whose field value is
  present and strictly positive, stable-sorts them ascending by that value (ties in
  enumeration order), and gives them the values 1..k in that order; a feature whose value
  is missing or not positive keeps it. Here \<open>renumber_order l\<close> is the order in which the
  renumbering loop visits the features; feature ids are distinct, as the host guarantees,
  and the host accepts the writes.
\<close>

theorem restart_numbering_renumbers:
  assumes "layer s = Some l" and "distinct (map fid l)"
  shows "mset (renumber_order l) = mset (filter numbered l)
       \<and> sorted (map (\<lambda>f. the (number f)) (renumber_order l))
       \<and> (\<forall>v. filter (\<lambda>f. number f = Some v) (renumber_order l) =
               filter (\<lambda>f. numbered f \<and> number f = Some v) l)
       \<and> (\<exists>l'. layer (restart_numbering s True) = Some l' \<and> map fid l' = map fid l \<and>
            (\<forall>j<length (renumber_order l).
                value_of l' (fid (renumber_order l ! j)) = Some (int j + 1)) \<and>
            (\<forall>k<length l. \<not> numbered (l ! k) \<longrightarrow> l' ! k = l ! k))"
proof -
  let ?order = "renumber_order l"
  let ?ids = "map fid ?order"
  let ?l' = "map (renumbered ?ids) l"
  have a: "mset ?order = mset (filter numbered l)"
    by (simp add: renumber_order_sort)
  have b: "sorted (map (\<lambda>f. the (number f)) ?order)"
    unfolding renumber_order_sort by (rule sorted_sort_key)
  have c: "filter (\<lambda>f. number f = Some v) ?order =
           filter (\<lambda>f. numbered f \<and> number f = Some v) l" for v
  proof -
    have "filter (\<lambda>f. number f = Some v) ?order = filter (\<lambda>f. the (number f) = v) ?order"
      by (rule filter_cong) (auto simp: renumber_order_set numbered_def split: option.splits)
    also have "\<dots> = filter (\<lambda>f. the (number f) = v) (filter numbered l)"
      unfolding renumber_order_sort by (rule sort_key_stable)
    also have "\<dots> = filter (\<lambda>f. numbered f \<and> number f = Some v) l"
      unfolding filter_filter
      by (rule filter_cong) (auto simp: numbered_def split: option.splits)
    finally show ?thesis .
  qed
  have lay: "layer (restart_numbering s True) = Some ?l'"
    using restart_closed [OF assms] by simp
  have ids: "map fid ?l' = map fid l"
    by (simp add: comp_def)
  have dist: "distinct ?ids"
    by (rule renumber_order_distinct [OF assms(2)])
  have d: "value_of ?l' (fid (?order ! j)) = Some (int j + 1)" if "j < length ?order" for j
  proof -
    have mem: "?order ! j \<in> set l"
      using that nth_mem [of j ?order] by (simp add: renumber_order_set)
    have "position (fid (?order ! j)) ?ids = j"
      using position_nth [OF dist, of j] that by simp
    moreover have "fid (?order ! j) \<in> set ?ids"
      using that by simp
    ultimately have "number (renumbered ?ids (?order ! j)) = Some (int j + 1)"
      by (simp add: renumbered_def)
    then show ?thesis
      using value_of_map [of l "?order ! j" "renumbered ?ids"] assms(2) mem by simp
  qed
  have e: "?l' ! k = l ! k" if "k < length l" "\<not> numbered (l ! k)" for k
    using unnumbered_not_visited [OF assms(2) nth_mem [OF that(1)] that(2)] that(1)
    by (simp add: renumbered_def)
  show ?thesis
    using a b c lay ids d e by blast
qed


theorem restart_numbering_renumbers_witness:
  "layer (started spec_example) = Some spec_example
   \<and> distinct (map fid spec_example)
   \<and> renumber_order spec_example =
       [\<lparr>fid = 2, number = Some 2\<rparr>, \<lparr>fid = 1, number = Some 5\<rparr>, \<lparr>fid = 3, number = Some 8\<rparr>]
   \<and> restart_numbering (started spec_example) True =
       started [\<lparr>fid = 1, number = Some 2\<rparr>, \<lparr>fid = 2, number = Some 1\<rparr>,
                \<lparr>fid = 3, number = Some 3\<rparr>, \<lparr>fid = 4, number = None\<rparr>]
   \<and> (\<exists>l'. layer (restart_numbering (started spec_example) True) = Some l'
          \<and> map fid l' = [1, 2, 3, 4]
          \<and> value_of l' 2 = Some 1 \<and> value_of l' 1 = Some 2 \<and> value_of l' 3 = Some 3
          \<and> l' ! 3 = \<lparr>fid = 4, number = None\<rparr>)"
proof -
  have lay: "layer (started spec_example) = Some spec_example"
    by (simp add: started_def)
  have dist: "distinct (map fid spec_example)"
    by (simp add: spec_example_def)
  note ord = renumber_order_spec_example
  from restart_numbering_renumbers [OF lay dist]
  obtain l' where l': "layer (restart_numbering (started spec_example) True) = Some l'"
      "map fid l' = map fid spec_example"
      "\<forall>j<length (renumber_order spec_example).
          value_of l' (fid (renumber_order spec_example ! j)) = Some (int j + 1)"
      "\<forall>k<length spec_example. \<not> numbered (spec_example ! k) \<longrightarrow> l' ! k = spec_example ! k"
    by blast
  have "value_of l' 2 = Some 1"
    using l'(3) [rule_format, of 0] by (simp add: ord)
  moreover have "value_of l' 1 = Some 2"
    using l'(3) [rule_format, of 1] by (simp add: ord)
  moreover have "value_of l' 3 = Some 3"
    using l'(3) [rule_format, of 2] by (simp add: ord)
  moreover have "l' ! 3 = \<lparr>fid = 4, number = None\<rparr>"
    using l'(4) [rule_format, of 3] by (simp add: spec_example_def numbered_def)
  moreover have "map fid l' = [1, 2, 3, 4]"
    using l'(2) by (simp add: spec_example_def)
  ultimately show ?thesis
    using lay dist ord restart_spec_example l'(1) by simp
qed

text \<open>
  Claim C6: \<^verbatim>\<open>restart_numbering\<close> is idempotent: applying it twice in a row gives the
  same field values for every feature (indeed the same controller) as applying it once.
\<close>

theorem restart_numbering_idempotent:
  assumes "layer s = Some l" and "distinct (map fid l)"
  shows "restart_numbering (restart_numbering s ok) ok = restart_numbering s ok"
proof (cases ok)
  case False
  then show ?thesis
    using assms(1) by (simp add: restart_numbering_def renumber_loop_False)
next
  case True
  let ?ids = "map fid (renumber_order l)"
  let ?l' = "map (renumbered ?ids) l"
  let ?s' = "s\<lparr>layer := Some ?l'\<rparr>"
  have first: "restart_numbering s True = ?s'"
    by (rule restart_closed [OF assms])
  have lay': "layer ?s' = Some ?l'" and dist': "distinct (map fid ?l')"
    using assms(2) by (simp_all add: comp_def)
  have ids': "map fid (renumber_order ?l') = ?ids"
    by (simp add: renumber_order_again [OF assms(2)] comp_def)
  have "restart_numbering ?s' True = ?s'\<lparr>layer := Some (map (renumbered ?ids) ?l')\<rparr>"
    using restart_closed [OF lay' dist'] unfolding ids' .
  also have "\<dots> = ?s'"
    by (simp add: comp_def renumbered_idem)
  finally show ?thesis
    using True first by simp
qed


theorem restart_numbering_idempotent_witness:
  "layer (started spec_example) = Some spec_example
   \<and> distinct (map fid spec_example)
   \<and> restart_numbering (started spec_example) True =
       started [\<lparr>fid = 1, number = Some 2\<rparr>, \<lparr>fid = 2, number = Some 1\<rparr>,
                \<lparr>fid = 3, number = Some 3\<rparr>, \<lparr>fid = 4, number = None\<rparr>]
   \<and> restart_numbering
        (started [\<lparr>fid = 1, number = Some 2\<rparr>, \<lparr>fid = 2, number = Some 1\<rparr>,
                  \<lparr>fid = 3, number = Some 3\<rparr>, \<lparr>fid = 4, number = None\<rparr>]) True =
       started [\<lparr>fid = 1, number = Some 2\<rparr>, \<lparr>fid = 2, number = Some 1\<rparr>,
                \<lparr>fid = 3, number = Some 3\<rparr>, \<lparr>fid = 4, number = None\<rparr>]"
proof -
  have lay: "layer (started spec_example) = Some spec_example"
    by (simp add: started_def)
  have dist: "distinct (map fid spec_example)"
    by (simp add: spec_example_def)
  from restart_numbering_idempotent [OF lay dist, of True]
  show ?thesis
    unfolding restart_spec_example using lay dist by simp
qed


section \<open>\<^verbatim>\<open>restart_numbering\<close> and the undo stack\<close>

text \<open>
  Claim C9: \<^verbatim>\<open>restart_numbering\<close> never modifies the undo stack: after the call the
  stack is exactly what it was before, and no record has been pushed.
\<close>

theorem restart_keeps_history: "history (restart_numbering s ok) = history s"
  by (simp add: restart_numbering_def Let_def split: option.splits)

end
